theory Spec2Isabelle
  imports Main "HOL-Library.Word" "HOL-Library.Char_ord" "HOL-Library.List_Lexorder"
begin

unbundle bit_operations_syntax

section \<open>Python values that reach \<open>json.dumps\<close>\<close>

text \<open>
  The program never computes with a float: \<open>time()\<close> produces one, \<open>json.dumps\<close> prints
  it with \<open>float.__repr__\<close> (or as \<open>NaN\<close>, \<open>Infinity\<close>, \<open>-Infinity\<close>), and that is all. A float
  is therefore represented by the text \<open>json.dumps\<close> prints for it, which determines a finite
  float (\<open>float(repr(x)) == x\<close>). Floating-point arithmetic is outside this development.
\<close>

datatype pyfloat = PyFloat string

text \<open>
  The payload of a block (\<open>data: Any\<close>), restricted to what \<open>json.dumps\<close> serialises:
  \<open>None\<close>, booleans, integers (unbounded), floats, strings, lists and dicts with string keys.
  Strings are lists of code points below 256. A dict is the list of its items; Python
  compares dicts regardless of the order of their items, so a payload dict is represented
  with its items in increasing key order (see \<open>wf_json\<close>), one value of the model for each
  dict value of Python.
\<close>

datatype json =
    JNull
  | JBool bool
  | JInt int
  | JFloat pyfloat
  | JStr string
  | JList "json list"
  | JDict "(string \<times> json) list"

section \<open>\<open>json.dumps(..., separators=(",", ":"), sort_keys=True)\<close>\<close>

definition hexdigit :: "nat \<Rightarrow> char" where
  "hexdigit n = ''0123456789abcdef'' ! (n mod 16)"

fun nat_repr :: "nat \<Rightarrow> string" where
  "nat_repr n = (if n < 10 then [hexdigit n] else nat_repr (n div 10) @ [hexdigit (n mod 10)])"

declare nat_repr.simps [simp del]

definition int_repr :: "int \<Rightarrow> string" where
  "int_repr i = (if i < 0 then CHR ''-'' # nat_repr (nat (- i)) else nat_repr (nat i))"

fun float_repr :: "pyfloat \<Rightarrow> string" where
  "float_repr (PyFloat r) = r"

text \<open>
  \<open>json.encoder.py_encode_basestring_ascii\<close> (\<open>ensure_ascii\<close> is on by default): the
  pattern \<open>([\\"]|[^\ -~])\<close> selects a backslash, a double quote and every character
  outside \<open>' '..'~'\<close>; a selected character is replaced by its entry in \<open>ESCAPE_DCT\<close>,
  or by \<open>\uXXXX\<close> if it has none.
\<close>

definition ESCAPE_DCT :: "(char \<times> string) list" where
  "ESCAPE_DCT =
     [(CHR 0x5C, [CHR 0x5C, CHR 0x5C]), (CHR 0x22, [CHR 0x5C, CHR 0x22]),
      (CHR 0x08, [CHR 0x5C, CHR ''b'']), (CHR 0x0C, [CHR 0x5C, CHR ''f'']),
      (CHR 0x0A, [CHR 0x5C, CHR ''n'']), (CHR 0x0D, [CHR 0x5C, CHR ''r'']),
      (CHR 0x09, [CHR 0x5C, CHR ''t''])]"

definition escape_char :: "char \<Rightarrow> string" where
  "escape_char c =
     (if c = CHR 0x5C \<or> c = CHR 0x22 \<or> of_char c < (0x20 :: nat) \<or> (0x7E :: nat) < of_char c
      then (case map_of ESCAPE_DCT c of
              Some e \<Rightarrow> e
            | None \<Rightarrow> [CHR 0x5C, CHR ''u'', CHR ''0'', CHR ''0'',
                       hexdigit (of_char c div 16), hexdigit (of_char c mod 16)])
      else [c])"

definition encode_basestring_ascii :: "string \<Rightarrow> string" where
  "encode_basestring_ascii s = CHR 0x22 # concat (map escape_char s) @ [CHR 0x22]"

fun join :: "string \<Rightarrow> string list \<Rightarrow> string" where
  "join sep [] = []"
| "join sep [x] = x"
| "join sep (x # y # ys) = x @ sep @ join sep (y # ys)"

function dumps :: "json \<Rightarrow> string" where
  "dumps JNull = ''null''"
| "dumps (JBool b) = (if b then ''true'' else ''false'')"
| "dumps (JInt i) = int_repr i"
| "dumps (JFloat f) = float_repr f"
| "dumps (JStr s) = encode_basestring_ascii s"
| "dumps (JList xs) = ''['' @ join '','' (map dumps xs) @ '']''"
| "dumps (JDict kvs) =
     ''{'' @ join '',''
        (map (\<lambda>(k, v). encode_basestring_ascii k @ '':'' @ dumps v) (sort_key fst kvs))
      @ ''}''"
  by pat_completeness auto
termination
  apply (relation "measure size")
    apply simp
  subgoal for xs x by (induction xs) auto
  subgoal for kvs x k v
    apply (simp only: set_sort)
    by (induction kvs) auto
  done

section \<open>\<open>hashlib.sha256(...).hexdigest()\<close>\<close>

text \<open>SHA-256 as in FIPS 180-4, on bytes; the state is the eight working words.\<close>

type_synonym u8 = "8 word"
type_synonym u32 = "32 word"
type_synonym sha_state = "u32 \<times> u32 \<times> u32 \<times> u32 \<times> u32 \<times> u32 \<times> u32 \<times> u32"

text \<open>
  The constants are the first 32 bits of the fractional parts of the cube roots
  (\<open>sha_K\<close>, first 64 primes) and of the square roots (\<open>sha_H0\<close>, first 8 primes):
  the \<open>k\<close>-th root of \<open>p * 2 ^ (32 * k)\<close>, rounded down, modulo \<open>2 ^ 32\<close>.
\<close>

definition is_prime :: "nat \<Rightarrow> bool" where
  "is_prime n = (2 \<le> n \<and> (\<forall>d \<in> set [2..<n]. n mod d \<noteq> 0))"

definition first_primes :: "nat \<Rightarrow> nat list" where
  "first_primes n = take n (filter is_prime [2..<312])"

primrec root_bits :: "nat \<Rightarrow> nat \<Rightarrow> nat \<Rightarrow> nat \<Rightarrow> nat" where
  "root_bits k n 0 r = r"
| "root_bits k n (Suc b) r = root_bits k n b (if (r + 2 ^ b) ^ k \<le> n then r + 2 ^ b else r)"

definition frac_root :: "nat \<Rightarrow> nat \<Rightarrow> u32" where
  "frac_root k p = word_of_nat (root_bits k (p * 2 ^ (32 * k)) 36 0)"

definition sha_K :: "u32 list" where
  "sha_K = map (frac_root 3) (first_primes 64)"

definition sha_H0 :: sha_state where
  "sha_H0 = (frac_root 2 2, frac_root 2 3, frac_root 2 5, frac_root 2 7,
             frac_root 2 11, frac_root 2 13, frac_root 2 17, frac_root 2 19)"

definition Ch :: "u32 \<Rightarrow> u32 \<Rightarrow> u32 \<Rightarrow> u32" where
  "Ch x y z = (x AND y) XOR (NOT x AND z)"

definition Maj :: "u32 \<Rightarrow> u32 \<Rightarrow> u32 \<Rightarrow> u32" where
  "Maj x y z = (x AND y) XOR (x AND z) XOR (y AND z)"

definition Sigma0 :: "u32 \<Rightarrow> u32" where
  "Sigma0 x = word_rotr 2 x XOR word_rotr 13 x XOR word_rotr 22 x"

definition Sigma1 :: "u32 \<Rightarrow> u32" where
  "Sigma1 x = word_rotr 6 x XOR word_rotr 11 x XOR word_rotr 25 x"

definition sigma0 :: "u32 \<Rightarrow> u32" where
  "sigma0 x = word_rotr 7 x XOR word_rotr 18 x XOR drop_bit 3 x"

definition sigma1 :: "u32 \<Rightarrow> u32" where
  "sigma1 x = word_rotr 17 x XOR word_rotr 19 x XOR drop_bit 10 x"

definition sha_pad :: "u8 list \<Rightarrow> u8 list" where
  "sha_pad bs =
     bs @ [0x80] @ replicate ((119 - length bs mod 64) mod 64) 0
        @ map (\<lambda>i. ucast (drop_bit (8 * i) (word_of_nat (8 * length bs) :: 64 word)))
            [7, 6, 5, 4, 3, 2, 1, 0]"

fun chunks :: "nat \<Rightarrow> 'a list \<Rightarrow> 'a list list" where
  "chunks n xs = (if n = 0 \<or> xs = [] then [] else take n xs # chunks n (drop n xs))"

declare chunks.simps [simp del]

definition be32 :: "u8 list \<Rightarrow> u32" where
  "be32 bs = foldl (\<lambda>w b. push_bit 8 w OR ucast b) 0 bs"

primrec schedule :: "nat \<Rightarrow> u32 list \<Rightarrow> u32 list" where
  "schedule 0 ws = ws"
| "schedule (Suc n) ws =
     schedule n (ws @ [sigma1 (ws ! (length ws - 2)) + ws ! (length ws - 7)
                       + sigma0 (ws ! (length ws - 15)) + ws ! (length ws - 16)])"

fun sha_round :: "sha_state \<Rightarrow> u32 \<times> u32 \<Rightarrow> sha_state" where
  "sha_round (a, b, c, d, e, f, g, h) (k, w) =
     (let t1 = h + Sigma1 e + Ch e f g + k + w;
          t2 = Sigma0 a + Maj a b c
      in (t1 + t2, a, b, c, d + t1, e, f, g))"

fun sha_add :: "sha_state \<Rightarrow> sha_state \<Rightarrow> sha_state" where
  "sha_add (a, b, c, d, e, f, g, h) (a', b', c', d', e', f', g', h') =
     (a + a', b + b', c + c', d + d', e + e', f + f', g + g', h + h')"

definition sha_compress :: "sha_state \<Rightarrow> u8 list \<Rightarrow> sha_state" where
  "sha_compress st blk =
     sha_add st (foldl sha_round st (zip sha_K (schedule 48 (map be32 (chunks 4 blk)))))"

definition sha256 :: "u8 list \<Rightarrow> sha_state" where
  "sha256 bs = foldl sha_compress sha_H0 (chunks 64 (sha_pad bs))"

definition hex32 :: "u32 \<Rightarrow> string" where
  "hex32 w = map (\<lambda>i. hexdigit (unat (drop_bit (4 * i) w))) [7, 6, 5, 4, 3, 2, 1, 0]"

fun hexdigest :: "sha_state \<Rightarrow> string" where
  "hexdigest (a, b, c, d, e, f, g, h) =
     hex32 a @ hex32 b @ hex32 c @ hex32 d @ hex32 e @ hex32 f @ hex32 g @ hex32 h"

text \<open>\<open>str.encode("utf-8")\<close> on code points below 256.\<close>

definition utf8_char :: "char \<Rightarrow> u8 list" where
  "utf8_char c =
     (if of_char c < (0x80 :: nat) then [of_char c]
      else [0xC0 OR drop_bit 6 (of_char c), 0x80 OR (of_char c AND 0x3F)])"

definition encode_utf8 :: "string \<Rightarrow> u8 list" where
  "encode_utf8 s = concat (map utf8_char s)"

section \<open>Block\<close>

record Block =
  index :: int
  timestamp :: pyfloat
  data :: json
  previous_hash :: string
  nonce :: int
  hash :: string

definition block_string :: "Block \<Rightarrow> string" where
  "block_string self =
     dumps (JDict [(''index'', JInt (index self)),
                   (''timestamp'', JFloat (timestamp self)),
                   (''data'', data self),
                   (''previous_hash'', JStr (previous_hash self)),
                   (''nonce'', JInt (nonce self))])"

definition compute_hash :: "Block \<Rightarrow> string" where
  "compute_hash self = hexdigest (sha256 (encode_utf8 (block_string self)))"

section \<open>CentralBlockchain\<close>

text \<open>
  The persisted file is the only part of the outside world the class touches. A file
  either holds a chain that \<open>_load\<close> can rebuild, or anything else, for which \<open>_load\<close>
  catches the exception and leaves the chain empty. Failing writes are not modelled.
\<close>

datatype persisted = Chain_file "Block list" | Unreadable

type_synonym files = "string \<rightharpoonup> persisted"

datatype error = IndexError

datatype 'a outcome = Returns 'a | Raises error | Diverges

record CentralBlockchain =
  difficulty :: int
  prefix :: string
  persist_path :: "string option"
  chain_list :: "Block list"

definition startswith :: "string \<Rightarrow> string \<Rightarrow> bool" where
  "startswith s p = (take (length p) s = p)"

definition create_genesis_block :: "pyfloat \<Rightarrow> Block" where
  "create_genesis_block now =
     (let genesis = \<lparr>index = 0, timestamp = now, data = JStr ''Genesis Block'',
                     previous_hash = replicate 64 CHR ''0'', nonce = 0, hash = ''''\<rparr>
      in genesis\<lparr>hash := compute_hash genesis\<rparr>)"

definition truthy :: "string option \<Rightarrow> bool" where
  "truthy p = (case p of None \<Rightarrow> False | Some s \<Rightarrow> s \<noteq> [])"

definition persist :: "CentralBlockchain \<Rightarrow> files \<Rightarrow> files" where
  "persist self fs =
     (if \<not> truthy (persist_path self) then fs
      else fs(the (persist_path self) \<mapsto> Chain_file (chain_list self)))"

definition load :: "CentralBlockchain \<Rightarrow> files \<Rightarrow> CentralBlockchain" where
  "load self fs =
     (case persist_path self of
        None \<Rightarrow> self\<lparr>chain_list := []\<rparr>
      | Some p \<Rightarrow>
          (case fs p of
             Some (Chain_file raw) \<Rightarrow> self\<lparr>chain_list := raw\<rparr>
           | _ \<Rightarrow> self\<lparr>chain_list := []\<rparr>))"

text \<open>\<open>__init__\<close>; \<open>now\<close> is what \<open>time()\<close> returns if the genesis block is created.\<close>

definition init :: "int \<Rightarrow> string option \<Rightarrow> pyfloat \<Rightarrow> files \<Rightarrow> CentralBlockchain \<times> files" where
  "init d path now fs =
     (let self0 = \<lparr>difficulty = d, prefix = replicate (nat d) CHR ''0'',
                   persist_path = path, chain_list = []\<rparr>;
          self1 = (if truthy path \<and> the path \<in> dom fs then load self0 fs else self0)
      in if chain_list self1 = []
         then (let self2 = self1\<lparr>chain_list := chain_list self1 @ [create_genesis_block now]\<rparr>
               in (self2, persist self2 fs))
         else (self1, fs))"

text \<open>
  The search loop of \<open>mineBlock\<close> has no bound: where no nonce is found the function
  does not return, which is the value \<open>None\<close>.
\<close>

partial_function (option) mineBlock :: "CentralBlockchain \<Rightarrow> Block \<Rightarrow> Block option" where
  "mineBlock self block =
     (if startswith (compute_hash block) (prefix self)
      then Some (block\<lparr>hash := compute_hash block\<rparr>)
      else mineBlock self (block\<lparr>nonce := nonce block + 1\<rparr>))"

definition setBlock ::
  "CentralBlockchain \<Rightarrow> files \<Rightarrow> pyfloat \<Rightarrow> json \<Rightarrow> (Block \<times> CentralBlockchain \<times> files) outcome" where
  "setBlock self fs now d =
     (if chain_list self = [] then Raises IndexError
      else
        (let prev = last (chain_list self);
             new_block = \<lparr>index = index prev + 1, timestamp = now, data = d,
                          previous_hash = hash prev, nonce = 0, hash = ''''\<rparr>
         in case mineBlock self new_block of
              None \<Rightarrow> Diverges
            | Some mined \<Rightarrow>
                (let self' = self\<lparr>chain_list := chain_list self @ [mined]\<rparr>
                 in Returns (mined, self', persist self' fs))))"

definition getBlock :: "CentralBlockchain \<Rightarrow> int \<Rightarrow> Block option" where
  "getBlock self i =
     (if 0 \<le> i \<and> i < int (length (chain_list self)) then Some (chain_list self ! nat i)
      else None)"

definition asdict :: "Block \<Rightarrow> json" where
  "asdict b =
     JDict [(''index'', JInt (index b)), (''timestamp'', JFloat (timestamp b)),
            (''data'', data b), (''previous_hash'', JStr (previous_hash b)),
            (''nonce'', JInt (nonce b)), (''hash'', JStr (hash b))]"

definition blocksExplorer :: "CentralBlockchain \<Rightarrow> json list" where
  "blocksExplorer self = map asdict (chain_list self)"

text \<open>The loop \<open>for i in range(1, len(self.chain))\<close> of \<open>is_valid\<close>, from \<open>i\<close> on.\<close>

function is_valid_from :: "CentralBlockchain \<Rightarrow> nat \<Rightarrow> bool" where
  "is_valid_from self i =
     (if i < length (chain_list self) then
        (let prev = chain_list self ! (i - 1);
             curr = chain_list self ! i
         in if previous_hash curr \<noteq> hash prev then False
            else if compute_hash curr \<noteq> hash curr then False
            else if \<not> startswith (hash curr) (prefix self) then False
            else is_valid_from self (i + 1))
      else True)"
  by pat_completeness auto
termination
  by (relation "measure (\<lambda>(self, i). length (chain_list self) - i)") auto

declare is_valid_from.simps [simp del]

definition is_valid :: "CentralBlockchain \<Rightarrow> bool" where
  "is_valid self =
     (if chain_list self = [] then False
      else if hash (chain_list self ! 0) \<noteq> compute_hash (chain_list self ! 0) then False
      else is_valid_from self 1)"

text \<open>What every constructed ledger satisfies: the prefix is that of its difficulty.\<close>

definition prefix_ok :: "CentralBlockchain \<Rightarrow> bool" where
  "prefix_ok self = (prefix self = replicate (nat (difficulty self)) CHR ''0'')"

text \<open>The number of leading \<open>'0'\<close> characters of a digest.\<close>

definition leading_zeros :: "string \<Rightarrow> nat" where
  "leading_zeros s = length (takeWhile (\<lambda>c. c = CHR ''0'') s)"

text \<open>
  Sequential appends: \<open>setBlock\<close> once for each payload, in order, each with the time of
  its call. The first call that raises or does not return ends the sequence.
\<close>

fun setBlocks ::
  "CentralBlockchain \<Rightarrow> files \<Rightarrow> (pyfloat \<times> json) list \<Rightarrow> (CentralBlockchain \<times> files) outcome" where
  "setBlocks self fs [] = Returns (self, fs)"
| "setBlocks self fs ((now, d) # rest) =
     (case setBlock self fs now d of
        Returns (mined, self', fs') \<Rightarrow> setBlocks self' fs' rest
      | Raises e \<Rightarrow> Raises e
      | Diverges \<Rightarrow> Diverges)"

text \<open>
  The public methods of the class, as calls on a ledger and the files. \<open>mineBlock\<close>
  changes the block object it is given; \<open>MineBlock\<close> is a call on a block object of the
  caller's own, not on one that the chain holds.
\<close>

datatype request =
    SetBlock pyfloat json
  | GetBlock int
  | BlocksExplorer
  | MineBlock Block
  | IsValid

datatype response =
    Block_result Block
  | Optional_block "Block option"
  | Dicts "json list"
  | Bool_result bool

fun call ::
  "request \<Rightarrow> CentralBlockchain \<Rightarrow> files \<Rightarrow> (response \<times> CentralBlockchain \<times> files) outcome" where
  "call (SetBlock now d) self fs =
     (case setBlock self fs now d of
        Returns (mined, self', fs') \<Rightarrow> Returns (Block_result mined, self', fs')
      | Raises e \<Rightarrow> Raises e
      | Diverges \<Rightarrow> Diverges)"
| "call (GetBlock i) self fs = Returns (Optional_block (getBlock self i), self, fs)"
| "call BlocksExplorer self fs = Returns (Dicts (blocksExplorer self), self, fs)"
| "call (MineBlock block) self fs =
     (case mineBlock self block of
        None \<Rightarrow> Diverges
      | Some mined \<Rightarrow> Returns (Block_result mined, self, fs))"
| "call IsValid self fs = Returns (Bool_result (is_valid self), self, fs)"

section \<open>Well-formed field values\<close>




section \<open>Example values\<close>

definition example_ledger :: "int \<Rightarrow> CentralBlockchain" where
  "example_ledger d = fst (init d None (PyFloat ''1700000000.5'') Map.empty)"

definition example_block :: Block where
  "example_block =
     \<lparr>index = 1, timestamp = PyFloat ''1700000001.25'', data = JStr ''a'',
      previous_hash = replicate 64 CHR ''0'', nonce = 7, hash = ''''\<rparr>"

section \<open>Mining\<close>

lemma startswith_Nil: "startswith s []"
  by (simp add: startswith_def)

lemma prefix_ok_init: "prefix_ok (fst (init d path now fs))"
  by (simp add: init_def load_def prefix_ok_def Let_def split: option.splits persisted.splits)

lemma difficulty_init: "difficulty (fst (init d path now fs)) = d"
  by (simp add: init_def load_def Let_def split: option.splits persisted.splits)

lemma compute_hash_hash_update [simp]: "compute_hash (b\<lparr>hash := h\<rparr>) = compute_hash b"
  by (simp add: compute_hash_def block_string_def)

lemma startswith_zeros: "startswith s (replicate n CHR ''0'') \<longleftrightarrow> n \<le> leading_zeros s"
  unfolding startswith_def leading_zeros_def
proof (induction s arbitrary: n)
  case Nil
  then show ?case by auto
next
  case (Cons c s)
  show ?case
  proof (cases n)
    case 0
    then show ?thesis by simp
  next
    case (Suc m)
    with Cons [of m] show ?thesis by auto
  qed
qed


lemma mineBlock_Some:
  assumes "mineBlock self block = Some mined"
  shows "mined = block\<lparr>nonce := nonce mined, hash := compute_hash mined\<rparr>
         \<and> nonce block \<le> nonce mined
         \<and> startswith (compute_hash mined) (prefix self)
         \<and> (\<forall>k. nonce block \<le> k \<and> k < nonce mined
               \<longrightarrow> \<not> startswith (compute_hash (block\<lparr>nonce := k\<rparr>)) (prefix self))"
    (is "?Q self block mined")
proof (rule mineBlock.raw_induct [where P = ?Q, OF _ assms])
  fix mine :: "CentralBlockchain \<Rightarrow> Block \<Rightarrow> Block option" and s b m
  assume ih: "\<And>s b m. mine s b = Some m \<Longrightarrow> ?Q s b m"
    and body: "(if startswith (compute_hash b) (prefix s)
                then Some (b\<lparr>hash := compute_hash b\<rparr>)
                else mine s (b\<lparr>nonce := nonce b + 1\<rparr>)) = Some m"
  show "?Q s b m"
  proof (cases "startswith (compute_hash b) (prefix s)")
    case True
    with body have "m = b\<lparr>hash := compute_hash b\<rparr>" by simp
    with True show ?thesis by auto
  next
    case False
    with body have rec: "mine s (b\<lparr>nonce := nonce b + 1\<rparr>) = Some m" by simp
    note r = ih [OF rec]
    from r have a: "m = b\<lparr>nonce := nonce m, hash := compute_hash m\<rparr>" by simp
    from r have b: "nonce b \<le> nonce m" by simp
    from r have c: "startswith (compute_hash m) (prefix s)" by simp
    have d: "\<not> startswith (compute_hash (b\<lparr>nonce := k\<rparr>)) (prefix s)"
      if "nonce b \<le> k" "k < nonce m" for k
    proof (cases "k = nonce b")
      case True
      with False show ?thesis by simp
    next
      case False
      with that have "nonce (b\<lparr>nonce := nonce b + 1\<rparr>) \<le> k" by simp
      with r that(2) have "\<not> startswith (compute_hash (b\<lparr>nonce := nonce b + 1, nonce := k\<rparr>)) (prefix s)"
        by blast
      then show ?thesis by simp
    qed
    from a b c d show ?thesis by blast
  qed
qed

lemma mineBlock_terminates:
  assumes "nonce block \<le> n"
    and "startswith (compute_hash (block\<lparr>nonce := n\<rparr>)) (prefix self)"
  shows "\<exists>mined. mineBlock self block = Some mined"
  using assms
proof (induction "nat (n - nonce block)" arbitrary: block)
  case 0
  then have "block\<lparr>nonce := n\<rparr> = block" by simp
  with 0 have "startswith (compute_hash block) (prefix self)" by simp
  then show ?case by (subst mineBlock.simps) simp
next
  case (Suc m)
  show ?case
  proof (cases "startswith (compute_hash block) (prefix self)")
    case True
    then show ?thesis by (subst mineBlock.simps) simp
  next
    case False
    let ?b = "block\<lparr>nonce := nonce block + 1\<rparr>"
    from Suc(2) have "m = nat (n - nonce ?b)" by simp
    moreover from Suc(2) have "nonce ?b \<le> n" by simp
    moreover from Suc(4) have "startswith (compute_hash (?b\<lparr>nonce := n\<rparr>)) (prefix self)" by simp
    ultimately have "\<exists>mined. mineBlock self ?b = Some mined" by (rule Suc(1))
    with False show ?thesis by (subst mineBlock.simps) simp
  qed
qed

lemma length_hex32: "length (hex32 w) = 8"
  by (simp add: hex32_def)



lemma length_hexdigest: "length (hexdigest st) = 64"
  by (cases st rule: hexdigest.cases) (simp add: length_hex32)


lemma length_compute_hash: "length (compute_hash b) = 64"
  by (simp add: compute_hash_def length_hexdigest)


lemma leading_zeros_le_length: "leading_zeros s \<le> length s"
  by (simp add: leading_zeros_def length_takeWhile_le)


lemma prefix_ok_example: "prefix_ok (example_ledger d)"
  by (simp add: example_ledger_def prefix_ok_init)

lemma difficulty_example: "difficulty (example_ledger d) = d"
  by (simp add: example_ledger_def difficulty_init)

lemma mineBlock_empty_prefix:
  "prefix self = [] \<Longrightarrow> mineBlock self block = Some (block\<lparr>hash := compute_hash block\<rparr>)"
  by (subst mineBlock.simps) (simp add: startswith_Nil)

lemma prefix_example_0: "prefix (example_ledger 0) = []"
  using prefix_ok_example [of 0] by (simp add: prefix_ok_def difficulty_example)

text \<open>
  C8. With difficulty 0 the prefix is empty, every digest starts with it, and \<open>mineBlock\<close>
  returns in its first iteration: the block it was given, nonce unchanged, with the
  digest of that state as its hash.
\<close>

theorem mineBlock_difficulty_zero:
  assumes "prefix_ok self" and "difficulty self = 0"
  shows "mineBlock self block = Some (block\<lparr>hash := compute_hash block\<rparr>)
         \<and> nonce (block\<lparr>hash := compute_hash block\<rparr>) = nonce block"
proof -
  from assms have "prefix self = []"
    by (simp add: prefix_ok_def)
  then show ?thesis
    by (subst mineBlock.simps) (simp add: startswith_Nil)
qed

text \<open>C8, at a concrete input: a ledger of difficulty 0 and a candidate at nonce 7.\<close>

theorem mineBlock_difficulty_zero_witness:
  "prefix_ok (example_ledger 0) \<and> difficulty (example_ledger 0) = 0
   \<and> mineBlock (example_ledger 0) example_block
       = Some (example_block\<lparr>hash := compute_hash example_block\<rparr>)
   \<and> nonce (example_block\<lparr>hash := compute_hash example_block\<rparr>) = 7"
  using mineBlock_difficulty_zero [OF prefix_ok_example difficulty_example, of example_block]
  by (simp add: prefix_ok_example difficulty_example example_block_def)




text \<open>
  C9. What \<open>mineBlock\<close> returns is the block it was given with only \<open>nonce\<close> and
  \<open>hash\<close> changed: \<open>index\<close>, \<open>timestamp\<close>, \<open>data\<close> and \<open>previous_hash\<close> are
  those of the input, the nonce has not decreased, and the hash is the digest of the result.
\<close>

theorem mineBlock_frame:
  assumes "mineBlock self block = Some mined"
  shows "index mined = index block \<and> timestamp mined = timestamp block
         \<and> data mined = data block \<and> previous_hash mined = previous_hash block
         \<and> nonce block \<le> nonce mined \<and> hash mined = compute_hash mined
         \<and> mined = block\<lparr>nonce := nonce mined, hash := hash mined\<rparr>"
proof -
  from mineBlock_Some [OF assms]
  have eq: "mined = block\<lparr>nonce := nonce mined, hash := compute_hash mined\<rparr>"
    and lo: "nonce block \<le> nonce mined"
    by simp_all
  have "index mined = index (block\<lparr>nonce := nonce mined, hash := compute_hash mined\<rparr>)"
    by (subst eq) simp
  then have i: "index mined = index block" by simp
  have "timestamp mined = timestamp (block\<lparr>nonce := nonce mined, hash := compute_hash mined\<rparr>)"
    by (subst eq) simp
  then have t: "timestamp mined = timestamp block" by simp
  have "data mined = data (block\<lparr>nonce := nonce mined, hash := compute_hash mined\<rparr>)"
    by (subst eq) simp
  then have d: "data mined = data block" by simp
  have "previous_hash mined
          = previous_hash (block\<lparr>nonce := nonce mined, hash := compute_hash mined\<rparr>)"
    by (subst eq) simp
  then have p: "previous_hash mined = previous_hash block" by simp
  have "hash mined = hash (block\<lparr>nonce := nonce mined, hash := compute_hash mined\<rparr>)"
    by (subst eq) simp
  then have h: "hash mined = compute_hash mined" by simp
  from eq h have "mined = block\<lparr>nonce := nonce mined, hash := hash mined\<rparr>" by metis
  with i t d p lo h show ?thesis by blast
qed

text \<open>C9, at a concrete input.\<close>

theorem mineBlock_frame_witness:
  "mineBlock (example_ledger 0) example_block
     = Some (example_block\<lparr>hash := compute_hash example_block\<rparr>)
   \<and> index (example_block\<lparr>hash := compute_hash example_block\<rparr>) = 1
   \<and> data (example_block\<lparr>hash := compute_hash example_block\<rparr>) = JStr ''a''
   \<and> nonce example_block \<le> nonce (example_block\<lparr>hash := compute_hash example_block\<rparr>)"
  using mineBlock_frame [OF mineBlock_empty_prefix [OF prefix_example_0, of example_block]]
    mineBlock_empty_prefix [OF prefix_example_0, of example_block]
  by (simp add: example_block_def)

section \<open>The digest\<close>



section \<open>Reading a block\<close>

text \<open>
  C7. \<open>getBlock\<close> returns the block at position \<open>index\<close> when
  \<open>0 \<le> index < len(chain)\<close> and \<open>None\<close> for every other integer, the negative ones
  included; it is total, so it never raises.
\<close>

theorem getBlock_total:
  "(0 \<le> i \<and> i < int (length (chain_list self))
      \<longrightarrow> getBlock self i = Some (chain_list self ! nat i))
   \<and> (i < 0 \<or> int (length (chain_list self)) \<le> i \<longrightarrow> getBlock self i = None)"
  by (auto simp: getBlock_def)

text \<open>C7, at a concrete input: a chain of two blocks, read at 1, 2 and -1.\<close>

theorem getBlock_total_witness:
  "getBlock ((example_ledger 0)\<lparr>chain_list := [example_block, example_block\<lparr>index := 2\<rparr>]\<rparr>) 1
     = Some (example_block\<lparr>index := 2\<rparr>)
   \<and> getBlock ((example_ledger 0)\<lparr>chain_list := [example_block, example_block\<lparr>index := 2\<rparr>]\<rparr>) 2
     = None
   \<and> getBlock ((example_ledger 0)\<lparr>chain_list := [example_block, example_block\<lparr>index := 2\<rparr>]\<rparr>) (- 1)
     = None"
  using
    getBlock_total [of 1 "(example_ledger 0)\<lparr>chain_list := [example_block, example_block\<lparr>index := 2\<rparr>]\<rparr>"]
    getBlock_total [of 2 "(example_ledger 0)\<lparr>chain_list := [example_block, example_block\<lparr>index := 2\<rparr>]\<rparr>"]
    getBlock_total [of "- 1" "(example_ledger 0)\<lparr>chain_list := [example_block, example_block\<lparr>index := 2\<rparr>]\<rparr>"]
  by simp

section \<open>Validation\<close>

lemma is_valid_from_iff:
  "is_valid_from self i \<longleftrightarrow>
     (\<forall>j. i \<le> j \<and> j < length (chain_list self) \<longrightarrow>
        previous_hash (chain_list self ! j) = hash (chain_list self ! (j - 1))
        \<and> compute_hash (chain_list self ! j) = hash (chain_list self ! j)
        \<and> startswith (hash (chain_list self ! j)) (prefix self))"
  (is "_ \<longleftrightarrow> (\<forall>j. i \<le> j \<and> j < ?n self \<longrightarrow> ?ok self j)")
proof (induction "length (chain_list self) - i" arbitrary: i)
  case 0
  then have "\<not> i < ?n self" by simp
  then show ?case by (subst is_valid_from.simps) auto
next
  case (Suc k)
  then have lt: "i < ?n self" by simp
  show ?case
  proof (cases "?ok self i")
    case False
    with lt have "\<not> is_valid_from self i"
      by (subst is_valid_from.simps) (auto simp: Let_def)
    moreover from lt False have "\<not> (\<forall>j. i \<le> j \<and> j < ?n self \<longrightarrow> ?ok self j)"
      by blast
    ultimately show ?thesis by blast
  next
    case ok: True
    with lt have step: "is_valid_from self i = is_valid_from self (i + 1)"
      by (subst is_valid_from.simps) (simp add: Let_def)
    from Suc(2) have "k = ?n self - (i + 1)" by simp
    then have ih: "is_valid_from self (i + 1) \<longleftrightarrow>
        (\<forall>j. i + 1 \<le> j \<and> j < ?n self \<longrightarrow> ?ok self j)"
      by (rule Suc(1))
    have "(\<forall>j. i \<le> j \<and> j < ?n self \<longrightarrow> ?ok self j)
          \<longleftrightarrow> (\<forall>j. i + 1 \<le> j \<and> j < ?n self \<longrightarrow> ?ok self j)"
    proof
      assume "\<forall>j. i \<le> j \<and> j < ?n self \<longrightarrow> ?ok self j"
      then show "\<forall>j. i + 1 \<le> j \<and> j < ?n self \<longrightarrow> ?ok self j" by simp
    next
      assume a: "\<forall>j. i + 1 \<le> j \<and> j < ?n self \<longrightarrow> ?ok self j"
      show "\<forall>j. i \<le> j \<and> j < ?n self \<longrightarrow> ?ok self j"
      proof (intro allI impI)
        fix j assume j: "i \<le> j \<and> j < ?n self"
        show "?ok self j"
        proof (cases "j = i")
          case True
          with ok show ?thesis by simp
        next
          case False
          with j have "i + 1 \<le> j \<and> j < ?n self" by simp
          with a show ?thesis by blast
        qed
      qed
    qed
    with step ih show ?thesis by simp
  qed
qed

lemma valid_chain_startswith:
  "is_valid self \<longleftrightarrow>
     chain_list self \<noteq> []
     \<and> hash (chain_list self ! 0) = compute_hash (chain_list self ! 0)
     \<and> (\<forall>i. 1 \<le> i \<and> i < length (chain_list self) \<longrightarrow>
           previous_hash (chain_list self ! i) = hash (chain_list self ! (i - 1))
           \<and> compute_hash (chain_list self ! i) = hash (chain_list self ! i)
           \<and> startswith (hash (chain_list self ! i)) (prefix self))"
  unfolding is_valid_def is_valid_from_iff by auto

text \<open>
  C2. \<open>is_valid\<close> is false on an empty chain; otherwise it is true exactly when the
  genesis block's stored hash is its recomputed digest and every later block \<open>i\<close> links
  to the hash of block \<open>i - 1\<close>, stores its own recomputed digest, and has at least the
  ledger's current difficulty as leading \<open>'0'\<close> characters. Nothing asks the genesis
  hash for the prefix.
\<close>

theorem is_valid_iff:
  assumes "prefix_ok self"
  shows "is_valid self \<longleftrightarrow>
     chain_list self \<noteq> []
     \<and> hash (chain_list self ! 0) = compute_hash (chain_list self ! 0)
     \<and> (\<forall>i. 1 \<le> i \<and> i < length (chain_list self) \<longrightarrow>
           previous_hash (chain_list self ! i) = hash (chain_list self ! (i - 1))
           \<and> hash (chain_list self ! i) = compute_hash (chain_list self ! i)
           \<and> nat (difficulty self) \<le> leading_zeros (hash (chain_list self ! i)))"
proof -
  have "startswith h (prefix self) \<longleftrightarrow> nat (difficulty self) \<le> leading_zeros h" for h
    using assms by (simp add: prefix_ok_def startswith_zeros)
  then show ?thesis
    unfolding valid_chain_startswith by (simp add: eq_commute)
qed

lemma chain_example: "chain_list (example_ledger d) = [create_genesis_block (PyFloat ''1700000000.5'')]"
  by (simp add: example_ledger_def init_def truthy_def Let_def)

lemma hash_genesis: "hash (create_genesis_block now) = compute_hash (create_genesis_block now)"
  unfolding create_genesis_block_def Let_def
  by (subst compute_hash_hash_update) simp

text \<open>
  C2, at a concrete input: a new ledger of difficulty 65 is valid, although the hash of
  its genesis block cannot have 65 leading zeros.
\<close>

theorem is_valid_iff_witness:
  "prefix_ok (example_ledger 65) \<and> is_valid (example_ledger 65)
   \<and> leading_zeros (hash (chain_list (example_ledger 65) ! 0)) < nat (difficulty (example_ledger 65))"
proof -
  have "leading_zeros (hash (create_genesis_block (PyFloat ''1700000000.5''))) \<le> 64"
    using leading_zeros_le_length [of "hash (create_genesis_block (PyFloat ''1700000000.5''))"]
    by (simp add: hash_genesis length_compute_hash)
  with is_valid_iff [OF prefix_ok_example, of 65] show ?thesis
    by (simp add: prefix_ok_example chain_example hash_genesis difficulty_example)
qed

section \<open>Appending\<close>

lemma mineBlock_fields:
  assumes "mineBlock self block = Some mined"
  shows "index mined = index block" "timestamp mined = timestamp block"
    "data mined = data block" "previous_hash mined = previous_hash block"
    "hash mined = compute_hash mined" "startswith (hash mined) (prefix self)"
proof -
  from mineBlock_Some [OF assms]
  have eq: "mined = block\<lparr>nonce := nonce mined, hash := compute_hash mined\<rparr>"
    and sw: "startswith (compute_hash mined) (prefix self)"
    by simp_all
  have "index mined = index (block\<lparr>nonce := nonce mined, hash := compute_hash mined\<rparr>)"
    by (subst eq) simp
  then show "index mined = index block" by simp
  have "timestamp mined = timestamp (block\<lparr>nonce := nonce mined, hash := compute_hash mined\<rparr>)"
    by (subst eq) simp
  then show "timestamp mined = timestamp block" by simp
  have "data mined = data (block\<lparr>nonce := nonce mined, hash := compute_hash mined\<rparr>)"
    by (subst eq) simp
  then show "data mined = data block" by simp
  have "previous_hash mined
          = previous_hash (block\<lparr>nonce := nonce mined, hash := compute_hash mined\<rparr>)"
    by (subst eq) simp
  then show "previous_hash mined = previous_hash block" by simp
  have "hash mined = hash (block\<lparr>nonce := nonce mined, hash := compute_hash mined\<rparr>)"
    by (subst eq) simp
  then show h: "hash mined = compute_hash mined" by simp
  from sw h show "startswith (hash mined) (prefix self)" by simp
qed

lemma setBlock_Returns:
  assumes "setBlock self fs now d = Returns (mined, self', fs')"
  shows "chain_list self \<noteq> []"
    and "mineBlock self \<lparr>index = index (last (chain_list self)) + 1, timestamp = now, data = d,
            previous_hash = hash (last (chain_list self)), nonce = 0, hash = ''''\<rparr> = Some mined"
    and "self' = self\<lparr>chain_list := chain_list self @ [mined]\<rparr>"
    and "fs' = persist self' fs"
  using assms
  by (auto simp: setBlock_def Let_def split: if_splits option.splits)

lemma setBlock_new_block:
  assumes "setBlock self fs now d = Returns (mined, self', fs')"
  shows "index mined = index (last (chain_list self)) + 1" "timestamp mined = now"
    "data mined = d" "previous_hash mined = hash (last (chain_list self))"
    "hash mined = compute_hash mined" "startswith (hash mined) (prefix self)"
  using mineBlock_fields [OF setBlock_Returns(2) [OF assms]] by simp_all

lemma setBlocks_chain:
  assumes "setBlocks self fs inputs = Returns (self', fs')"
  shows "length (chain_list self') = length (chain_list self) + length inputs
    \<and> take (length (chain_list self)) (chain_list self') = chain_list self
    \<and> prefix self' = prefix self \<and> difficulty self' = difficulty self
    \<and> (\<forall>i. length (chain_list self) \<le> i \<and> i < length (chain_list self') \<longrightarrow>
          previous_hash (chain_list self' ! i) = hash (chain_list self' ! (i - 1))
          \<and> index (chain_list self' ! i) = index (chain_list self' ! (i - 1)) + 1
          \<and> compute_hash (chain_list self' ! i) = hash (chain_list self' ! i)
          \<and> startswith (hash (chain_list self' ! i)) (prefix self)
          \<and> timestamp (chain_list self' ! i) = fst (inputs ! (i - length (chain_list self)))
          \<and> data (chain_list self' ! i) = snd (inputs ! (i - length (chain_list self))))"
  using assms
proof (induction inputs arbitrary: self fs)
  case Nil
  then show ?case by auto
next
  case (Cons inp rest)
  obtain now d where inp: "inp = (now, d)" by (cases inp)
  from Cons.prems inp obtain mined s1 f1
    where sb: "setBlock self fs now d = Returns (mined, s1, f1)"
      and rec: "setBlocks s1 f1 rest = Returns (self', fs')"
    by (auto split: outcome.splits)
  let ?c = "chain_list self" and ?c1 = "chain_list s1" and ?c' = "chain_list self'"
  note nb = setBlock_new_block [OF sb]
  from setBlock_Returns [OF sb] have ne: "?c \<noteq> []" and c1: "?c1 = ?c @ [mined]"
    and p1: "prefix s1 = prefix self" and d1: "difficulty s1 = difficulty self"
    by simp_all
  note ih = Cons.IH [OF rec]
  from ih have len: "length ?c' = length ?c1 + length rest"
    and tk: "take (length ?c1) ?c' = ?c1"
    and pd: "prefix self' = prefix s1" "difficulty self' = difficulty s1"
    by simp_all
  have old: "?c' ! j = ?c1 ! j" if "j < length ?c1" for j
  proof -
    from that have "?c' ! j = take (length ?c1) ?c' ! j" by simp
    with tk show ?thesis by simp
  qed
  have tk0: "take (length ?c) ?c' = ?c"
  proof -
    have "take (length ?c) ?c' = take (length ?c) (take (length ?c1) ?c')"
      by (simp add: c1 min_def)
    also have "\<dots> = take (length ?c) ?c1" by (simp only: tk)
    also have "\<dots> = ?c" by (simp add: c1)
    finally show ?thesis .
  qed
  have new: "previous_hash (?c' ! i) = hash (?c' ! (i - 1))
          \<and> index (?c' ! i) = index (?c' ! (i - 1)) + 1
          \<and> compute_hash (?c' ! i) = hash (?c' ! i)
          \<and> startswith (hash (?c' ! i)) (prefix self)
          \<and> timestamp (?c' ! i) = fst ((inp # rest) ! (i - length ?c))
          \<and> data (?c' ! i) = snd ((inp # rest) ! (i - length ?c))"
    if i: "length ?c \<le> i" "i < length ?c'" for i
  proof (cases "i = length ?c")
    case True
    then have "?c' ! i = mined" by (simp add: old c1)
    moreover from True ne have "?c' ! (i - 1) = last ?c"
      by (simp add: old c1 nth_append last_conv_nth)
    ultimately show ?thesis using nb True by (simp add: inp)
  next
    case False
    with i have i1: "length ?c1 \<le> i" by (simp add: c1)
    with ih i(2) have "previous_hash (?c' ! i) = hash (?c' ! (i - 1))
          \<and> index (?c' ! i) = index (?c' ! (i - 1)) + 1
          \<and> compute_hash (?c' ! i) = hash (?c' ! i)
          \<and> startswith (hash (?c' ! i)) (prefix s1)
          \<and> timestamp (?c' ! i) = fst (rest ! (i - length ?c1))
          \<and> data (?c' ! i) = snd (rest ! (i - length ?c1))"
      by blast
    moreover from i1 have "(inp # rest) ! (i - length ?c) = rest ! (i - length ?c1)"
      by (simp add: c1 Suc_diff_le)
    ultimately show ?thesis by (simp add: p1)
  qed
  from len tk0 pd new show ?case by (simp add: c1 p1 d1)
qed

lemma setBlock_returns:
  assumes "chain_list self \<noteq> []" and "0 \<le> n"
    and "startswith (compute_hash \<lparr>index = index (last (chain_list self)) + 1, timestamp = now,
            data = d, previous_hash = hash (last (chain_list self)), nonce = n, hash = ''''\<rparr>)
          (prefix self)"
  shows "\<exists>mined self1 fs1. setBlock self fs now d = Returns (mined, self1, fs1)"
proof -
  let ?cand = "\<lparr>index = index (last (chain_list self)) + 1, timestamp = now,
            data = d, previous_hash = hash (last (chain_list self)), nonce = 0, hash = ''''\<rparr>"
  from assms(2,3) have "\<exists>mined. mineBlock self ?cand = Some mined"
    by (intro mineBlock_terminates [of ?cand n self]) simp_all
  with assms(1) show ?thesis by (auto simp: setBlock_def Let_def)
qed

text \<open>
  C4. When \<open>setBlock\<close> returns, the block it returns was mined from the candidate with
  \<open>index = tip.index + 1\<close>, the given data, \<open>previous_hash = tip.hash\<close>, nonce 0 and
  an empty hash, and it is appended at the tail. After any number of sequential appends
  the blocks that were there are unchanged and every appended block links to the hash of
  its predecessor and has the next index; on a chain that started with the genesis
  block alone these are the positions \<open>1..N\<close>. \<open>setBlock\<close> does return whenever the
  chain is not empty and some nonce from 0 on gives the candidate a digest with the
  ledger's prefix.
\<close>

theorem setBlock_links:
  "(setBlock self fs now d = Returns (mined, self1, fs1) \<longrightarrow>
      chain_list self \<noteq> []
      \<and> mineBlock self \<lparr>index = index (last (chain_list self)) + 1, timestamp = now, data = d,
            previous_hash = hash (last (chain_list self)), nonce = 0, hash = ''''\<rparr> = Some mined
      \<and> chain_list self1 = chain_list self @ [mined]
      \<and> index mined = index (last (chain_list self)) + 1 \<and> data mined = d
      \<and> previous_hash mined = hash (last (chain_list self)))
   \<and> (setBlocks self fs inputs = Returns (self', fs') \<longrightarrow>
      length (chain_list self') = length (chain_list self) + length inputs
      \<and> take (length (chain_list self)) (chain_list self') = chain_list self
      \<and> (\<forall>i. length (chain_list self) \<le> i \<and> i < length (chain_list self') \<longrightarrow>
            previous_hash (chain_list self' ! i) = hash (chain_list self' ! (i - 1))
            \<and> index (chain_list self' ! i) = index (chain_list self' ! (i - 1)) + 1))
   \<and> (chain_list self \<noteq> [] \<and> 0 \<le> n
        \<and> startswith (compute_hash \<lparr>index = index (last (chain_list self)) + 1, timestamp = now,
               data = d, previous_hash = hash (last (chain_list self)), nonce = n, hash = ''''\<rparr>)
             (prefix self) \<longrightarrow>
      (\<exists>m s f. setBlock self fs now d = Returns (m, s, f)))"
proof (intro conjI impI)
  assume "chain_list self \<noteq> [] \<and> 0 \<le> n
        \<and> startswith (compute_hash \<lparr>index = index (last (chain_list self)) + 1, timestamp = now,
               data = d, previous_hash = hash (last (chain_list self)), nonce = n, hash = ''''\<rparr>)
             (prefix self)"
  then show "\<exists>m s f. setBlock self fs now d = Returns (m, s, f)"
    using setBlock_returns [of self n now d fs] by blast
next
  assume sb: "setBlock self fs now d = Returns (mined, self1, fs1)"
  from setBlock_Returns [OF sb] show "chain_list self \<noteq> []"
    and "mineBlock self \<lparr>index = index (last (chain_list self)) + 1, timestamp = now, data = d,
            previous_hash = hash (last (chain_list self)), nonce = 0, hash = ''''\<rparr> = Some mined"
    and "chain_list self1 = chain_list self @ [mined]"
    by simp_all
  from setBlock_new_block [OF sb] show "index mined = index (last (chain_list self)) + 1"
    and "data mined = d" and "previous_hash mined = hash (last (chain_list self))"
    by simp_all
next
  assume sbs: "setBlocks self fs inputs = Returns (self', fs')"
  note r = setBlocks_chain [OF sbs]
  from r show "length (chain_list self') = length (chain_list self) + length inputs" by simp
  from r show "take (length (chain_list self)) (chain_list self') = chain_list self" by simp
  from r show "\<forall>i. length (chain_list self) \<le> i \<and> i < length (chain_list self') \<longrightarrow>
            previous_hash (chain_list self' ! i) = hash (chain_list self' ! (i - 1))
            \<and> index (chain_list self' ! i) = index (chain_list self' ! (i - 1)) + 1"
    by blast
qed

lemma setBlock_empty_prefix:
  assumes "prefix self = []" and "chain_list self \<noteq> []"
  shows "\<exists>mined. setBlock self fs now d
           = Returns (mined, self\<lparr>chain_list := chain_list self @ [mined]\<rparr>,
                      persist (self\<lparr>chain_list := chain_list self @ [mined]\<rparr>) fs)"
  using assms by (simp add: setBlock_def Let_def mineBlock_empty_prefix)

lemma setBlocks_empty_prefix:
  assumes "prefix self = []" and "chain_list self \<noteq> []"
  shows "\<exists>self' fs'. setBlocks self fs inputs = Returns (self', fs')"
  using assms
proof (induction inputs arbitrary: self fs)
  case Nil
  then show ?case by simp
next
  case (Cons inp rest)
  obtain now d where inp: "inp = (now, d)" by (cases inp)
  from setBlock_empty_prefix [OF Cons.prems, of fs now d] obtain mined
    where sb: "setBlock self fs now d
           = Returns (mined, self\<lparr>chain_list := chain_list self @ [mined]\<rparr>,
                      persist (self\<lparr>chain_list := chain_list self @ [mined]\<rparr>) fs)"
    by blast
  have "\<exists>self' fs'. setBlocks (self\<lparr>chain_list := chain_list self @ [mined]\<rparr>)
            (persist (self\<lparr>chain_list := chain_list self @ [mined]\<rparr>) fs) rest
          = Returns (self', fs')"
    by (rule Cons.IH) (use Cons.prems in simp_all)
  with sb show ?case by (simp add: inp)
qed

lemma index_genesis: "index (create_genesis_block now) = 0"
  by (simp add: create_genesis_block_def Let_def)

text \<open>C4, at a concrete input: one append, and two sequential appends, at difficulty 0.\<close>

theorem setBlock_links_witness:
  "(\<exists>mined self1 fs1.
      setBlock (example_ledger 0) Map.empty (PyFloat ''1700000001.25'') (JStr ''a'')
        = Returns (mined, self1, fs1)
      \<and> chain_list self1 = chain_list (example_ledger 0) @ [mined]
      \<and> index mined = 1 \<and> data mined = JStr ''a'')
   \<and> (\<exists>self' fs'.
      setBlocks (example_ledger 0) Map.empty
        [(PyFloat ''1700000001.25'', JStr ''a''), (PyFloat ''1700000002.75'', JStr ''b'')]
        = Returns (self', fs')
      \<and> length (chain_list self') = 3
      \<and> previous_hash (chain_list self' ! 1) = hash (chain_list self' ! 0)
      \<and> previous_hash (chain_list self' ! 2) = hash (chain_list self' ! 1)
      \<and> index (chain_list self' ! 1) = index (chain_list self' ! 0) + 1
      \<and> index (chain_list self' ! 2) = index (chain_list self' ! 1) + 1)"
proof -
  let ?inputs = "[(PyFloat ''1700000001.25'', JStr ''a''), (PyFloat ''1700000002.75'', JStr ''b'')]"
  from setBlock_links [of "example_ledger 0" Map.empty "PyFloat ''1700000001.25''" "JStr ''a''"
      example_block "example_ledger 0" Map.empty "[]" "example_ledger 0" Map.empty 0]
  have "\<exists>m s f. setBlock (example_ledger 0) Map.empty (PyFloat ''1700000001.25'') (JStr ''a'')
        = Returns (m, s, f)"
    by (simp add: chain_example prefix_example_0 startswith_Nil)
  then obtain mined self1 fs1
    where s: "setBlock (example_ledger 0) Map.empty (PyFloat ''1700000001.25'') (JStr ''a'')
        = Returns (mined, self1, fs1)"
    by blast
  from setBlocks_empty_prefix [OF prefix_example_0, of Map.empty ?inputs]
  obtain self' fs' where r: "setBlocks (example_ledger 0) Map.empty ?inputs = Returns (self', fs')"
    by (auto simp: chain_example)
  note t = setBlock_links [of "example_ledger 0" Map.empty "PyFloat ''1700000001.25''" "JStr ''a''"
      mined self1 fs1 ?inputs self' fs' 0]
  from t s have one: "chain_list self1 = chain_list (example_ledger 0) @ [mined]"
    "index mined = 1" "data mined = JStr ''a''"
    by (simp_all add: chain_example index_genesis)
  from t r
  have len: "length (chain_list self') = 3"
    and link: "\<forall>i. 1 \<le> i \<and> i < length (chain_list self') \<longrightarrow>
            previous_hash (chain_list self' ! i) = hash (chain_list self' ! (i - 1))
            \<and> index (chain_list self' ! i) = index (chain_list self' ! (i - 1)) + 1"
    by (simp_all add: chain_example)
  from link len have "previous_hash (chain_list self' ! 1) = hash (chain_list self' ! (1 - 1))
      \<and> index (chain_list self' ! 1) = index (chain_list self' ! (1 - 1)) + 1"
    by (intro link [rule_format]) simp
  moreover from link len have "previous_hash (chain_list self' ! 2) = hash (chain_list self' ! (2 - 1))
      \<and> index (chain_list self' ! 2) = index (chain_list self' ! (2 - 1)) + 1"
    by (intro link [rule_format]) simp
  ultimately have "\<exists>self' fs'.
      setBlocks (example_ledger 0) Map.empty ?inputs = Returns (self', fs')
      \<and> length (chain_list self') = 3
      \<and> previous_hash (chain_list self' ! 1) = hash (chain_list self' ! 0)
      \<and> previous_hash (chain_list self' ! 2) = hash (chain_list self' ! 1)
      \<and> index (chain_list self' ! 1) = index (chain_list self' ! 0) + 1
      \<and> index (chain_list self' ! 2) = index (chain_list self' ! 1) + 1"
    using r len by simp
  moreover from s one have "\<exists>mined self1 fs1.
      setBlock (example_ledger 0) Map.empty (PyFloat ''1700000001.25'') (JStr ''a'')
        = Returns (mined, self1, fs1)
      \<and> chain_list self1 = chain_list (example_ledger 0) @ [mined]
      \<and> index mined = 1 \<and> data mined = JStr ''a''"
    by blast
  ultimately show ?thesis by blast
qed

section \<open>Valid chains and changed blocks\<close>

lemma is_valid_genesis_only:
  "chain_list self = [create_genesis_block now] \<Longrightarrow> is_valid self"
  by (simp add: valid_chain_startswith hash_genesis)









section \<open>Construction and the public calls\<close>

text \<open>
  C10 as stated fails: a persisted chain is loaded as it is, so the chain after
  construction can start with a block that has index 1 and no hash.
\<close>

theorem init_keeps_loaded_chain:
  "chain_list (fst (init 3 (Some ''chain.json'') (PyFloat ''1700000000.5'')
      [''chain.json'' \<mapsto> Chain_file [example_block]])) = [example_block]
   \<and> index (chain_list (fst (init 3 (Some ''chain.json'') (PyFloat ''1700000000.5'')
      [''chain.json'' \<mapsto> Chain_file [example_block]])) ! 0) = 1
   \<and> hash (chain_list (fst (init 3 (Some ''chain.json'') (PyFloat ''1700000000.5'')
      [''chain.json'' \<mapsto> Chain_file [example_block]])) ! 0) = ''''"
  by (simp add: init_def load_def truthy_def Let_def example_block_def)

lemma chain_init:
  "chain_list (fst (init d path now fs))
     = (case (if truthy path then fs (the path) else None) of
          Some (Chain_file (b # bs)) \<Rightarrow> b # bs
        | _ \<Rightarrow> [create_genesis_block now])"
  by (auto simp: init_def load_def truthy_def Let_def dom_def
      split: option.splits persisted.splits list.splits)

lemma genesis_fields:
  "index (create_genesis_block now) = 0"
  "previous_hash (create_genesis_block now) = replicate 64 CHR ''0''"
  "hash (create_genesis_block now) = compute_hash (create_genesis_block now)"
  "length (hash (create_genesis_block now)) = 64"
proof -
  show "index (create_genesis_block now) = 0"
    and "previous_hash (create_genesis_block now) = replicate 64 CHR ''0''"
    by (simp_all add: create_genesis_block_def Let_def)
  show h: "hash (create_genesis_block now) = compute_hash (create_genesis_block now)"
    by (rule hash_genesis)
  show "length (hash (create_genesis_block now)) = 64"
    by (simp only: h length_compute_hash)
qed

lemma call_frame:
  assumes "call r self fs = Returns (resp, self', fs')"
  shows "case r of
           SetBlock now d \<Rightarrow>
             (\<exists>mined. resp = Block_result mined
                \<and> self' = self\<lparr>chain_list := chain_list self @ [mined]\<rparr>)
         | _ \<Rightarrow> self' = self \<and> fs' = fs"
proof (cases r)
  case (SetBlock now d)
  with assms obtain mined where "setBlock self fs now d = Returns (mined, self', fs')"
    and "resp = Block_result mined"
    by (auto split: outcome.splits)
  with setBlock_Returns(3) [of self fs now d mined self' fs'] SetBlock show ?thesis by simp
next
  case (MineBlock block)
  with assms show ?thesis by (auto split: option.splits)
qed (use assms in auto)

text \<open>
  C10, as the code has it. After construction the chain is never empty: it is the
  persisted chain if one is loaded and not empty, unchecked, and otherwise the genesis
  block alone, with index 0, a previous hash of 64 zeros and its 64-character digest as
  hash. \<open>getBlock\<close>, \<open>blocksExplorer\<close> and \<open>is_valid\<close> always return and leave the
  ledger and the files as they were, and so does \<open>mineBlock\<close> (on a block that the chain
  does not hold) when it returns; a call of \<open>setBlock\<close> that returns appends exactly
  the block it returns.
\<close>

theorem chain_never_empty:
  "chain_list (fst (init d path now fs)) \<noteq> []
   \<and> chain_list (fst (init d path now fs))
       = (case (if truthy path then fs (the path) else None) of
            Some (Chain_file (b # bs)) \<Rightarrow> b # bs
          | _ \<Rightarrow> [create_genesis_block now])
   \<and> index (create_genesis_block now) = 0
   \<and> previous_hash (create_genesis_block now) = replicate 64 CHR ''0''
   \<and> hash (create_genesis_block now) = compute_hash (create_genesis_block now)
   \<and> length (hash (create_genesis_block now)) = 64
   \<and> (call r self fs' = Returns (resp, self', fs'') \<longrightarrow>
        (case r of
           SetBlock t x \<Rightarrow>
             (\<exists>mined. resp = Block_result mined
                \<and> chain_list self' = chain_list self @ [mined])
             \<and> length (chain_list self') = length (chain_list self) + 1
         | _ \<Rightarrow> self' = self \<and> fs'' = fs'))
   \<and> call (GetBlock i) self fs' = Returns (Optional_block (getBlock self i), self, fs')
   \<and> call BlocksExplorer self fs' = Returns (Dicts (blocksExplorer self), self, fs')
   \<and> call IsValid self fs' = Returns (Bool_result (is_valid self), self, fs')"
proof -
  have "chain_list (fst (init d path now fs)) \<noteq> []"
    by (simp add: chain_init split: option.splits persisted.splits list.splits)
  moreover have "case r of
           SetBlock t x \<Rightarrow>
             (\<exists>mined. resp = Block_result mined
                \<and> chain_list self' = chain_list self @ [mined])
             \<and> length (chain_list self') = length (chain_list self) + 1
         | _ \<Rightarrow> self' = self \<and> fs'' = fs'"
    if "call r self fs' = Returns (resp, self', fs'')"
    using call_frame [OF that] by (cases r) auto
  ultimately show ?thesis
    using chain_init [of d path now fs] genesis_fields [of now]
    by (simp only: call.simps) blast
qed

text \<open>C10, at concrete inputs: reads on a new ledger, and one append at difficulty 0.\<close>

theorem chain_never_empty_witness:
  "chain_list (example_ledger 3) = [create_genesis_block (PyFloat ''1700000000.5'')]
   \<and> call (GetBlock 0) (example_ledger 3) Map.empty
       = Returns (Optional_block (Some (create_genesis_block (PyFloat ''1700000000.5''))),
                  example_ledger 3, Map.empty)
   \<and> call IsValid (example_ledger 3) Map.empty
       = Returns (Bool_result True, example_ledger 3, Map.empty)
   \<and> (\<exists>mined self' fs'.
         call (SetBlock (PyFloat ''1700000001.25'') (JStr ''a'')) (example_ledger 0) Map.empty
           = Returns (Block_result mined, self', fs')
         \<and> length (chain_list self') = 2)"
proof -
  from setBlock_empty_prefix [OF prefix_example_0, of Map.empty "PyFloat ''1700000001.25''" "JStr ''a''"]
  obtain mined self' fs'
    where c: "call (SetBlock (PyFloat ''1700000001.25'') (JStr ''a'')) (example_ledger 0) Map.empty
           = Returns (Block_result mined, self', fs')"
    by (auto simp: chain_example)
  from chain_never_empty [of 0 None "PyFloat ''1700000000.5''" Map.empty
      "SetBlock (PyFloat ''1700000001.25'') (JStr ''a'')" "example_ledger 0" Map.empty
      "Block_result mined" self' fs'] c
  have "length (chain_list self') = 2" by (simp add: chain_example)
  with c have s: "\<exists>mined self' fs'.
         call (SetBlock (PyFloat ''1700000001.25'') (JStr ''a'')) (example_ledger 0) Map.empty
           = Returns (Block_result mined, self', fs')
         \<and> length (chain_list self') = 2"
    by blast
  have g: "call (GetBlock 0) (example_ledger 3) Map.empty
       = Returns (Optional_block (Some (create_genesis_block (PyFloat ''1700000000.5''))),
                  example_ledger 3, Map.empty)"
    by (simp add: getBlock_def chain_example)
  have v: "call IsValid (example_ledger 3) Map.empty
       = Returns (Bool_result True, example_ledger 3, Map.empty)"
    by (simp add: is_valid_genesis_only [OF chain_example])
  from chain_never_empty [of 3 None "PyFloat ''1700000000.5''" Map.empty
      "GetBlock 0" "example_ledger 3" Map.empty _ "example_ledger 3" Map.empty] g v s
  show ?thesis by (simp add: chain_example)
qed

section \<open>The canonical encoding\<close>





















lemma hd_encode_basestring_ascii: "encode_basestring_ascii s = CHR 0x22 # tl (encode_basestring_ascii s)"
  by (simp add: encode_basestring_ascii_def)
































text \<open>
  The order in which the items of a dict were inserted does not reach the encoding,
  which is why a payload dict can be represented by its items in key order.
\<close>

lemma sorted_items_unique:
  fixes xs ys :: "(string \<times> 'a) list"
  assumes "sorted_wrt (<) (map fst xs)" and "sorted_wrt (<) (map fst ys)" and "set xs = set ys"
  shows "xs = ys"
  using assms
proof (induction xs arbitrary: ys)
  case Nil
  then show ?case by simp
next
  case (Cons x xs')
  from Cons.prems(3) obtain y ys' where ys: "ys = y # ys'" by (cases ys) auto
  from Cons.prems(1) have x_min: "\<forall>z \<in> set xs'. fst x < fst z" by auto
  from Cons.prems(2) ys have y_min: "\<forall>z \<in> set ys'. fst y < fst z" by auto
  have "x = y"
  proof (rule ccontr)
    assume ne: "x \<noteq> y"
    with Cons.prems(3) ys have "x \<in> set ys'" "y \<in> set xs'" by auto
    with x_min y_min have "fst y < fst x" "fst x < fst y" by auto
    then show False by simp
  qed
  moreover from x_min have "x \<notin> set xs'" by auto
  moreover from y_min have "y \<notin> set ys'" by auto
  ultimately have "set xs' = set ys'" using Cons.prems(3) ys by auto
  moreover from Cons.prems(1) have "sorted_wrt (<) (map fst xs')" by simp
  moreover from Cons.prems(2) ys have "sorted_wrt (<) (map fst ys')" by simp
  ultimately have "xs' = ys'" by (intro Cons.IH)
  with \<open>x = y\<close> ys show ?case by simp
qed

lemma dumps_key_order:
  assumes "distinct (map fst kvs)" and "distinct (map fst kvs')" and "set kvs = set kvs'"
  shows "dumps (JDict kvs) = dumps (JDict kvs')"
proof -
  have s: "sorted_wrt (<) (map fst (sort_key fst l))" if "distinct (map fst l)"
    for l :: "(string \<times> json) list"
  proof -
    have "sorted (map fst (sort_key fst l))" by simp
    moreover from that have "distinct (map fst (sort_key fst l))"
      by (simp add: distinct_map)
    ultimately show ?thesis by (simp add: strict_sorted_iff)
  qed
  from assms(3) have "set (sort_key fst kvs) = set (sort_key fst kvs')" by simp
  with s [OF assms(1)] s [OF assms(2)] have "sort_key fst kvs = sort_key fst kvs'"
    by (rule sorted_items_unique)
  then show ?thesis by simp
qed

end
